theory Spec2Isabelle
  imports Main "HOL-Library.Sublist"
begin

section \<open>Go strings and the library functions the pipeline calls\<close>

text \<open>
  A Go string is a sequence of bytes and \<open>len\<close> counts bytes, so a Go string is a
  \<^typ>\<open>string\<close> (a list of 8-bit characters) and \<open>len\<close> is \<^const>\<open>length\<close>.
  The functions of this section are Go's \<open>strings\<close> package as documented; the
  repository calls them, it does not define them.
\<close>

definition paraSep :: string where
  \<comment> \<open>the literal \<open>"\n\n"\<close>\<close>
  "paraSep = [CHR 0x0A, CHR 0x0A]"

definition breakDelim :: string where
  "breakDelim = ''<<<BREAK>>>''"

text \<open>
  \<open>unicode.IsSpace\<close>: the runes U+0009..U+000D, U+0020, U+0085, U+00A0, U+1680,
  U+2000..U+200A, U+2028, U+2029, U+202F, U+205F and U+3000, each given here by its
  UTF-8 encoding. An invalid byte sequence decodes to U+FFFD, which is not a space.
\<close>

definition spaceRunes :: "string list" where
  "spaceRunes =
    [[CHR 0x09], [CHR 0x0A], [CHR 0x0B], [CHR 0x0C], [CHR 0x0D], [CHR 0x20],
     [CHR 0xC2, CHR 0x85], [CHR 0xC2, CHR 0xA0],
     [CHR 0xE1, CHR 0x9A, CHR 0x80],
     [CHR 0xE2, CHR 0x80, CHR 0x80], [CHR 0xE2, CHR 0x80, CHR 0x81],
     [CHR 0xE2, CHR 0x80, CHR 0x82], [CHR 0xE2, CHR 0x80, CHR 0x83],
     [CHR 0xE2, CHR 0x80, CHR 0x84], [CHR 0xE2, CHR 0x80, CHR 0x85],
     [CHR 0xE2, CHR 0x80, CHR 0x86], [CHR 0xE2, CHR 0x80, CHR 0x87],
     [CHR 0xE2, CHR 0x80, CHR 0x88], [CHR 0xE2, CHR 0x80, CHR 0x89],
     [CHR 0xE2, CHR 0x80, CHR 0x8A],
     [CHR 0xE2, CHR 0x80, CHR 0xA8], [CHR 0xE2, CHR 0x80, CHR 0xA9],
     [CHR 0xE2, CHR 0x80, CHR 0xAF],
     [CHR 0xE2, CHR 0x81, CHR 0x9F],
     [CHR 0xE3, CHR 0x80, CHR 0x80]]"

definition leadingSpace :: "string \<Rightarrow> string option" where
  \<comment> \<open>the encoding of the first rune of \<open>s\<close> when that rune is a space\<close>
  "leadingSpace s = find (\<lambda>e. prefix e s) spaceRunes"

definition trailingSpace :: "string \<Rightarrow> string option" where
  \<comment> \<open>the encoding of the last rune of \<open>s\<close> when that rune is a space\<close>
  "trailingSpace s = find (\<lambda>e. suffix e s) spaceRunes"

lemma spaceRunes_nonempty: "e \<in> set spaceRunes \<Longrightarrow> e \<noteq> []"
  by (auto simp: spaceRunes_def)

lemma find_SomeD: "find P xs = Some x \<Longrightarrow> x \<in> set xs \<and> P x"
  by (induction xs) (auto split: if_splits)

lemma leadingSpace_Some:
  "leadingSpace s = Some e \<Longrightarrow> e \<in> set spaceRunes \<and> e \<noteq> [] \<and> prefix e s"
  unfolding leadingSpace_def
  using find_SomeD [of "\<lambda>e. prefix e s" spaceRunes e] spaceRunes_nonempty [of e]
  by blast

lemma trailingSpace_Some:
  "trailingSpace s = Some e \<Longrightarrow> e \<in> set spaceRunes \<and> e \<noteq> [] \<and> suffix e s"
  unfolding trailingSpace_def
  using find_SomeD [of "\<lambda>e. suffix e s" spaceRunes e] spaceRunes_nonempty [of e]
  by blast

function TrimLeft :: "string \<Rightarrow> string" where
  "TrimLeft s =
     (case leadingSpace s of
        None \<Rightarrow> s
      | Some e \<Rightarrow> TrimLeft (drop (length e) s))"
  by pat_completeness auto
termination
proof (relation "measure length")
  fix s e
  assume "leadingSpace s = Some e"
  then have "e \<noteq> []" "prefix e s"
    using leadingSpace_Some by blast+
  then have "0 < length e" "length e \<le> length s"
    by (auto simp: prefix_length_le)
  then have "length s - length e < length s"
    by linarith
  then show "(drop (length e) s, s) \<in> measure length"
    by simp
qed simp

function TrimRight :: "string \<Rightarrow> string" where
  "TrimRight s =
     (case trailingSpace s of
        None \<Rightarrow> s
      | Some e \<Rightarrow> TrimRight (take (length s - length e) s))"
  by pat_completeness auto
termination
proof (relation "measure length")
  fix s e
  assume "trailingSpace s = Some e"
  then have "e \<noteq> []" "suffix e s"
    using trailingSpace_Some by blast+
  then have "0 < length e" "length e \<le> length s"
    by (auto simp: suffix_length_le)
  then have "length s - length e < length s"
    by linarith
  then show "(take (length s - length e) s, s) \<in> measure length"
    by simp
qed simp

declare TrimLeft.simps [simp del] TrimRight.simps [simp del]

definition TrimSpace :: "string \<Rightarrow> string" where
  \<comment> \<open>\<open>strings.TrimSpace\<close>: all leading and trailing white space removed\<close>
  "TrimSpace s = TrimRight (TrimLeft s)"

fun Index :: "string \<Rightarrow> string \<Rightarrow> nat option" where
  \<comment> \<open>\<open>strings.Index\<close>: the first position where \<open>sep\<close> occurs, \<open>None\<close> for Go's -1\<close>
  "Index [] sep = (if sep = [] then Some 0 else None)"
| "Index (c # cs) sep =
     (if prefix sep (c # cs) then Some 0 else map_option Suc (Index cs sep))"

lemma Index_Some_bound: "Index s sep = Some m \<Longrightarrow> m + length sep \<le> length s"
proof (induction s arbitrary: m)
  case Nil
  then show ?case by (simp split: if_splits)
next
  case (Cons c cs)
  show ?case
  proof (cases "prefix sep (c # cs)")
    case True
    with Cons.prems show ?thesis
      using prefix_length_le [of sep "c # cs"] by simp
  next
    case False
    with Cons.prems obtain k where "Index cs sep = Some k" "m = Suc k"
      by auto
    with Cons.IH [of k] show ?thesis by simp
  qed
qed

function Split :: "string \<Rightarrow> string \<Rightarrow> string list" where
  \<comment> \<open>\<open>strings.Split\<close> with a non-empty separator, as \<open>genSplit\<close> computes it: cut at the
      first occurrence, go on behind it. Both callers pass a non-empty literal; the
      empty separator (Go then splits after each UTF-8 sequence) is not modelled and
      returns \<open>[s]\<close> here.\<close>
  "Split s sep =
     (if sep = [] then [s]
      else case Index s sep of
             None \<Rightarrow> [s]
           | Some m \<Rightarrow> take m s # Split (drop (m + length sep) s) sep)"
  by pat_completeness auto
termination
proof (relation "measure (\<lambda>(s, sep). length s)")
  fix s sep :: string and m
  assume "sep \<noteq> []" "Index s sep = Some m"
  then have "0 < length sep" "m + length sep \<le> length s"
    using Index_Some_bound by auto
  then have "length s - (m + length sep) < length s"
    by linarith
  then show "((drop (m + length sep) s, sep), (s, sep)) \<in> measure (\<lambda>(s, sep). length s)"
    by simp
qed simp

declare Split.simps [simp del]

fun Join :: "string list \<Rightarrow> string \<Rightarrow> string" where
  \<comment> \<open>\<open>strings.Join\<close>\<close>
  "Join [] sep = []"
| "Join [x] sep = x"
| "Join (x # y # ys) sep = x @ sep @ Join (y # ys) sep"

definition slice :: "string \<Rightarrow> nat \<Rightarrow> nat \<Rightarrow> string" where
  \<comment> \<open>the slice expression \<open>s[i:j]\<close>; every use below has \<open>i \<le> j \<le> len(s)\<close>, where Go
      does not panic\<close>
  "slice s i j = take (j - i) (drop i s)"

section \<open>Constants (\<open>internal/bot/constants.go\<close>)\<close>

definition MaxDiscordMessageLength :: nat where
  "MaxDiscordMessageLength = 2000"

text \<open>
  \<open>time.Duration\<close> is an \<open>int64\<close> count of nanoseconds. Durations are integers here,
  and every arithmetic operation of the source on them is followed by the wrap-around
  of \<open>int64\<close>.
\<close>

definition Millisecond :: int where
  "Millisecond = 1000000"

definition MinMessageDelay :: int where
  "MinMessageDelay = 5000 * Millisecond"

definition MaxMessageDelay :: int where
  "MaxMessageDelay = 8000 * Millisecond"

definition TypingSpeed :: int where
  "TypingSpeed = 50 * Millisecond"

definition wrap64 :: "int \<Rightarrow> int" where
  \<comment> \<open>the value an \<open>int64\<close> holds after an operation whose exact result is \<open>x\<close>\<close>
  "wrap64 x = (x + 2 ^ 63) mod 2 ^ 64 - 2 ^ 63"

definition quo :: "int \<Rightarrow> int \<Rightarrow> int" where
  \<comment> \<open>Go's integer division, which truncates toward zero\<close>
  "quo a b = sgn a * sgn b * (\<bar>a\<bar> div \<bar>b\<bar>)"

section \<open>The fallback splitter\<close>

text \<open>
  \<open>fallbackMessageBreaks\<close> (\<open>internal/ai/client.go\<close>) and \<open>fallbackChunking\<close>
  (\<open>internal/bot/formatting.go\<close>) have the same body. \<open>paragraphLoop\<close> is their
  \<open>for _, para := range paragraphs\<close> loop, with the loop variables \<open>chunks\<close> and
  \<open>currentChunk\<close> as arguments.
\<close>

fun paragraphLoop :: "string list \<Rightarrow> string list \<Rightarrow> string \<Rightarrow> string list \<times> string" where
  "paragraphLoop [] chunks currentChunk = (chunks, currentChunk)"
| "paragraphLoop (p # paragraphs) chunks currentChunk =
     (let para = TrimSpace p in
      if para = [] then paragraphLoop paragraphs chunks currentChunk
      else if length currentChunk > 0 \<and> length currentChunk + length para + 2 > 800
        then paragraphLoop paragraphs (chunks @ [TrimSpace currentChunk]) para
      else if length currentChunk > 0
        then paragraphLoop paragraphs chunks (currentChunk @ paraSep @ para)
      else paragraphLoop paragraphs chunks para)"

definition lastChunk :: "string list \<times> string \<Rightarrow> string list" where
  \<comment> \<open>after the loop: \<open>if len(currentChunk) > 0 { chunks = append(chunks, TrimSpace(currentChunk)) }\<close>\<close>
  "lastChunk st =
     (case st of (chunks, currentChunk) \<Rightarrow>
        if length currentChunk > 0 then chunks @ [TrimSpace currentChunk] else chunks)"

definition fallbackMessageBreaks :: "string \<Rightarrow> string list" where
  "fallbackMessageBreaks message =
     (let paragraphs = Split message paraSep;
          chunks = lastChunk (paragraphLoop paragraphs [] [])
      in if length chunks \<le> 1 then [message] else chunks)"

definition fallbackChunking :: "string \<Rightarrow> string list" where
  "fallbackChunking response =
     (let paragraphs = Split response paraSep;
          chunks = lastChunk (paragraphLoop paragraphs [] [])
      in if length chunks \<le> 1 then [response] else chunks)"

section \<open>AI-assisted segmentation (\<open>internal/ai/client.go\<close>)\<close>

fun validateLoop :: "string list \<Rightarrow> string list \<Rightarrow> string list" where
  \<comment> \<open>the loop \<open>for _, chunk := range parts\<close> of \<open>parseMessageBreaks\<close>\<close>
  "validateLoop [] chunks = chunks"
| "validateLoop (part # parts) chunks =
     (let chunk = TrimSpace part in
      if chunk \<noteq> [] \<and> length chunk \<le> 2000
        then validateLoop parts (chunks @ [chunk])
        else validateLoop parts chunks)"

definition parseMessageBreaks :: "string \<Rightarrow> string \<Rightarrow> string list" where
  "parseMessageBreaks response originalMessage =
     (let parts = [] @ Split response breakDelim;
          chunks = validateLoop parts []
      in if length chunks \<le> 1 then fallbackMessageBreaks originalMessage else chunks)"

text \<open>
  What \<open>askGrok\<close> gets back from the network. \<open>httpClient.Do\<close> either fails (no
  connection, timeout, cancelled context) or yields a status code and a body; the body
  of a 200 response is decoded by \<open>encoding/json\<close> into a \<open>map[string]interface{}\<close>,
  which fails (\<open>None\<close>) or gives the decoded object. A decoded JSON value is a
  \<open>json\<close>; an object is the list of its members, looked up with \<^const>\<open>map_of\<close>.
\<close>

datatype json =
    JNull
  | JBool bool
  | JNumber string
  | JString string
  | JArray "json list"
  | JObject "(string \<times> json) list"

datatype http_reply =
    NoReply
  | Reply nat "(string \<times> json) list option"

datatype error = ValidationError | RequestFailed | APIError nat | DecodeFailed

text \<open>A call of a Go function returns, or panics and unwinds its callers.\<close>

datatype 'a outcome = Returns 'a | Panics

record AIClient =
  xaiAPIKey :: string
  httpDo :: "string \<Rightarrow> http_reply"

text \<open>
  \<open>httpDo c prompt\<close> is the reply to the request \<open>askGrok\<close> builds for the user
  message \<open>prompt\<close>; the other parts of the request (system message, model, token
  budget) are constants at the one call site modelled here. Marshalling the request
  and building the \<open>http.Request\<close> cannot fail for these arguments.
\<close>

definition askGrok :: "AIClient \<Rightarrow> string \<Rightarrow> (error + string) outcome" where
  "askGrok c prompt =
     (if xaiAPIKey c = [] then Returns (Inl ValidationError)
      else case httpDo c prompt of
        NoReply \<Rightarrow> Returns (Inl RequestFailed)
      | Reply statusCode body \<Rightarrow>
          if statusCode \<noteq> 200 then Returns (Inl (APIError statusCode))
          else (case body of
            None \<Rightarrow> Returns (Inl DecodeFailed)
          | Some result \<Rightarrow>
              (case map_of result ''choices'' of
                 Some (JArray (choice # _)) \<Rightarrow>
                   (case choice of
                      JObject obj \<Rightarrow>
                        (case map_of obj ''message'' of
                           Some (JObject message) \<Rightarrow>
                             (case map_of message ''content'' of
                                Some (JString content) \<Rightarrow> Returns (Inr content)
                              | _ \<Rightarrow> Returns (Inl (APIError statusCode)))
                         | _ \<Rightarrow> Panics)
                    | _ \<Rightarrow> Panics)
               | _ \<Rightarrow> Returns (Inl (APIError statusCode)))))"

text \<open>
  \<open>SuggestMessageBreaks\<close> returns Go's pair \<open>([]string, error)\<close>, the error as an
  option. The second component of the model's result lists the prompts \<open>askGrok\<close> was
  called with, that is the provider calls made.
\<close>

definition SuggestMessageBreaks ::
  "AIClient \<Rightarrow> string \<Rightarrow> (string list \<times> error option) outcome \<times> string list" where
  "SuggestMessageBreaks c message =
     (if length message \<le> 500 then (Returns ([message], None), [])
      else
        let userPrompt =
              ''Break this message into natural conversational chunks:'' @ paraSep @ message
        in case askGrok c userPrompt of
             Panics \<Rightarrow> (Panics, [userPrompt])
           | Returns (Inl err) \<Rightarrow> (Returns (fallbackMessageBreaks message, None), [userPrompt])
           | Returns (Inr response) \<Rightarrow>
               (Returns (parseMessageBreaks response message, None), [userPrompt]))"

section \<open>Delivery (\<open>internal/bot/formatting.go\<close>)\<close>

text \<open>
  The file holds two versions of \<open>sendLongResponse\<close>. The model is the later one,
  which asks \<open>SuggestMessageBreaks\<close> for the chunks and paces them; the earlier one
  only cut the response into slices of 2000 bytes.
\<close>

function splitFrom :: "string \<Rightarrow> nat \<Rightarrow> string list \<Rightarrow> string list" where
  \<comment> \<open>the loop of \<open>splitLongChunk\<close>, from index \<open>i\<close> with \<open>subChunks\<close> collected so far;
      \<open>math.Min\<close> on the two lengths converted to \<open>float64\<close> is their minimum\<close>
  "splitFrom chunk i subChunks =
     (if i < length chunk
      then (let end = min (i + MaxDiscordMessageLength) (length chunk)
            in splitFrom chunk (i + MaxDiscordMessageLength) (subChunks @ [slice chunk i end]))
      else subChunks)"
  by pat_completeness auto
termination
  by (relation "measure (\<lambda>(chunk, i, subChunks). length chunk - i)")
     (auto simp: MaxDiscordMessageLength_def)

declare splitFrom.simps [simp del]

definition splitLongChunk :: "string \<Rightarrow> string list" where
  "splitLongChunk chunk = splitFrom chunk 0 []"

definition calculateTypingDelay :: "string \<Rightarrow> int" where
  "calculateTypingDelay chunk =
     (let chunkLength = int (length chunk);
          typingTime = quo (wrap64 (chunkLength * TypingSpeed)) 80;
          delay = wrap64 (MinMessageDelay + typingTime)
      in if delay > MaxMessageDelay then MaxMessageDelay else delay)"

text \<open>
  One call of \<open>sendChunkWithDelay\<close> is one \<open>attempt\<close>: \<open>pause = Some d\<close> when the call
  started the typing indicator for the duration \<open>d\<close> and slept \<open>d\<close> before sending,
  \<open>None\<close> when it sent at once; \<open>content\<close> is the text handed to
  \<open>ChannelMessageSend\<close>; \<open>sendError\<close> tells whether that call returned an error (which
  the source logs and drops). The gateway decides the error from the attempts made
  so far and the text; the typing indicator's own goroutine is not modelled.
\<close>

record attempt =
  pause :: "int option"
  content :: string
  sendError :: bool

type_synonym gateway = "attempt list \<Rightarrow> string \<Rightarrow> bool"

definition sendChunkWithDelay :: "gateway \<Rightarrow> attempt list \<Rightarrow> string \<Rightarrow> bool \<Rightarrow> attempt list" where
  "sendChunkWithDelay gw trace chunk addDelay =
     trace @ [\<lparr>pause = (if addDelay then Some (calculateTypingDelay chunk) else None),
               content = chunk,
               sendError = gw trace chunk\<rparr>]"

fun sendSubChunks :: "gateway \<Rightarrow> nat \<Rightarrow> nat \<Rightarrow> string list \<Rightarrow> attempt list \<Rightarrow> attempt list" where
  \<comment> \<open>\<open>for j, subChunk := range subChunks\<close>, inside iteration \<open>i\<close> of the outer loop\<close>
  "sendSubChunks gw i j [] trace = trace"
| "sendSubChunks gw i j (subChunk # subChunks) trace =
     sendSubChunks gw i (Suc j) subChunks
       (sendChunkWithDelay gw trace subChunk (i > 0 \<or> j > 0))"

fun sendChunks :: "gateway \<Rightarrow> nat \<Rightarrow> string list \<Rightarrow> attempt list \<Rightarrow> attempt list" where
  \<comment> \<open>\<open>for i, chunk := range chunks\<close> of \<open>sendLongResponse\<close>\<close>
  "sendChunks gw i [] trace = trace"
| "sendChunks gw i (chunk # chunks) trace =
     (if length chunk > MaxDiscordMessageLength
      then sendChunks gw (Suc i) chunks (sendSubChunks gw i 0 (splitLongChunk chunk) trace)
      else sendChunks gw (Suc i) chunks (sendChunkWithDelay gw trace chunk (i > 0)))"

definition sendLongResponse :: "AIClient \<Rightarrow> gateway \<Rightarrow> string \<Rightarrow> attempt list outcome" where
  "sendLongResponse c gw response =
     (case fst (SuggestMessageBreaks c response) of
        Panics \<Rightarrow> Panics
      | Returns (chunks, err) \<Rightarrow>
          Returns (sendChunks gw 0
                     (if err \<noteq> None then fallbackChunking response else chunks) []))"

section \<open>The specification's formulas\<close>

text \<open>
  These definitions follow the words of the specification, not the source; the
  theorems compare them with the functions above.
\<close>

definition clamp :: "int \<Rightarrow> int \<Rightarrow> int \<Rightarrow> int" where
  "clamp x lo hi = max lo (min x hi)"

definition specTypingDelay :: "nat \<Rightarrow> int" where
  \<comment> \<open>\<open>clamp(5000ms + len * 50ms / 80, 5000ms, 8000ms)\<close> for a chunk of length \<open>n\<close>\<close>
  "specTypingDelay n =
     clamp (MinMessageDelay + int n * TypingSpeed div 80) MinMessageDelay MaxMessageDelay"

definition parseMessageBreaks_spec :: "string \<Rightarrow> string \<Rightarrow> string list" where
  \<comment> \<open>split on the delimiter, trim every piece, drop the empty and the over-long ones,
      fall back when at most one piece is left\<close>
  "parseMessageBreaks_spec response originalMessage =
     (let pieces = filter (\<lambda>p. p \<noteq> [] \<and> length p \<le> 2000)
                     (map TrimSpace (Split response breakDelim))
      in if length pieces \<le> 1 then fallbackMessageBreaks originalMessage else pieces)"

definition trimmed :: "string \<Rightarrow> bool" where
  \<comment> \<open>no white space at either end: \<open>TrimSpace\<close> leaves the string as it is\<close>
  "trimmed s \<longleftrightarrow> leadingSpace s = None \<and> trailingSpace s = None"

definition paddedReply :: string where
  \<comment> \<open>a reply of three paragraphs, the middle one blank\<close>
  "paddedReply = ''a'' @ paraSep @ replicate 900 CHR '' '' @ paraSep @ ''b''"

section \<open>The length enforcer\<close>

lemma slice_piece:
  "i < length chunk \<Longrightarrow>
   slice chunk i (min (i + MaxDiscordMessageLength) (length chunk))
     = take MaxDiscordMessageLength (drop i chunk)"
  by (cases "i + MaxDiscordMessageLength \<le> length chunk") (simp_all add: slice_def min_def)

lemma splitFrom_step:
  "i < length chunk \<Longrightarrow>
   splitFrom chunk i acc
     = splitFrom chunk (i + MaxDiscordMessageLength)
         (acc @ [take MaxDiscordMessageLength (drop i chunk)])"
  by (subst splitFrom.simps) (simp add: Let_def slice_piece)

lemma splitFrom_stop: "\<not> i < length chunk \<Longrightarrow> splitFrom chunk i acc = acc"
  by (subst splitFrom.simps) simp

lemma splitFrom_concat: "concat (splitFrom chunk i acc) = concat acc @ drop i chunk"
proof (induction chunk i acc rule: splitFrom.induct)
  case (1 chunk i acc)
  show ?case
  proof (cases "i < length chunk")
    case True
    have "concat (splitFrom chunk i acc)
            = concat (acc @ [take MaxDiscordMessageLength (drop i chunk)])
                @ drop (i + MaxDiscordMessageLength) chunk"
      using "1.IH" [OF True refl] True by (simp add: splitFrom_step slice_piece)
    also have "\<dots> = concat acc @ take MaxDiscordMessageLength (drop i chunk)
                        @ drop MaxDiscordMessageLength (drop i chunk)"
      by (simp add: add.commute)
    also have "\<dots> = concat acc @ drop i chunk"
      by (simp only: append_take_drop_id)
    finally show ?thesis .
  next
    case False
    then show ?thesis by (simp add: splitFrom_stop)
  qed
qed

lemma splitFrom_pieces:
  "\<forall>p \<in> set acc. p \<noteq> [] \<and> length p \<le> MaxDiscordMessageLength \<Longrightarrow>
   \<forall>p \<in> set (splitFrom chunk i acc). p \<noteq> [] \<and> length p \<le> MaxDiscordMessageLength"
proof (induction chunk i acc rule: splitFrom.induct)
  case (1 chunk i acc)
  show ?case
  proof (cases "i < length chunk")
    case True
    have "take MaxDiscordMessageLength (drop i chunk) \<noteq> []"
      using True by (simp add: MaxDiscordMessageLength_def)
    then have "\<forall>p \<in> set (acc @ [slice chunk i (min (i + MaxDiscordMessageLength) (length chunk))]).
            p \<noteq> [] \<and> length p \<le> MaxDiscordMessageLength"
      using "1.prems" by (simp add: slice_piece [OF True])
    from "1.IH" [OF True refl this] show ?thesis
      using True by (simp add: splitFrom_step slice_piece)
  next
    case False
    with "1.prems" show ?thesis by (simp add: splitFrom_stop)
  qed
qed

lemma splitFrom_full:
  "\<forall>p \<in> set acc. length p = MaxDiscordMessageLength \<Longrightarrow>
   \<forall>p \<in> set (butlast (splitFrom chunk i acc)). length p = MaxDiscordMessageLength"
proof (induction chunk i acc rule: splitFrom.induct)
  case (1 chunk i acc)
  let ?piece = "take MaxDiscordMessageLength (drop i chunk)"
  show ?case
  proof (cases "i < length chunk")
    case True
    have step: "splitFrom chunk i acc
                  = splitFrom chunk (i + MaxDiscordMessageLength) (acc @ [?piece])"
      by (rule splitFrom_step [OF True])
    have sl: "slice chunk i (min (i + MaxDiscordMessageLength) (length chunk)) = ?piece"
      by (rule slice_piece [OF True])
    show ?thesis
    proof (cases "i + MaxDiscordMessageLength < length chunk")
      case more: True
      have "length ?piece = MaxDiscordMessageLength"
        using more by simp
      then have "\<forall>p \<in> set (acc @ [?piece]). length p = MaxDiscordMessageLength"
        using "1.prems" by simp
      then have "\<forall>p \<in> set (butlast (splitFrom chunk (i + MaxDiscordMessageLength)
                     (acc @ [?piece]))). length p = MaxDiscordMessageLength"
        using "1.IH" [OF True refl] unfolding sl by blast
      then show ?thesis
        unfolding step .
    next
      case False
      have "splitFrom chunk i acc = acc @ [?piece]"
        unfolding step by (rule splitFrom_stop [OF False])
      then have "butlast (splitFrom chunk i acc) = acc"
        by simp
      with "1.prems" show ?thesis by simp
    qed
  next
    case False
    have "splitFrom chunk i acc = acc"
      by (rule splitFrom_stop [OF False])
    with "1.prems" show ?thesis
      by (auto dest: in_set_butlastD)
  qed
qed

lemma content_sendChunkWithDelay:
  "map content (sendChunkWithDelay gw trace chunk addDelay) = map content trace @ [chunk]"
  by (simp add: sendChunkWithDelay_def)

lemma content_sendSubChunks:
  "map content (sendSubChunks gw i j subChunks trace) = map content trace @ subChunks"
  by (induction subChunks arbitrary: j trace) (simp_all add: content_sendChunkWithDelay)

lemma content_sendChunks:
  "map content (sendChunks gw i chunks trace)
     = map content trace
       @ concat (map (\<lambda>chunk. if length chunk > MaxDiscordMessageLength
                               then splitLongChunk chunk else [chunk]) chunks)"
  by (induction chunks arbitrary: i trace)
     (simp_all add: content_sendChunkWithDelay content_sendSubChunks)

text \<open>
  Claim C1. The length enforcer is the branch on \<open>len(chunk) > MaxDiscordMessageLength\<close>
  in the loop of \<open>sendLongResponse\<close>: its output is the sequence of texts handed to
  \<open>ChannelMessageSend\<close>. For every chunk sequence (and whatever the gateway answers)
  every text sent has length at most 2000, the texts concatenated in the order sent
  are the concatenation of the chunks, a chunk of length at most 2000 is passed
  through and a longer one is replaced by \<open>splitLongChunk\<close> of it; and
  \<open>splitLongChunk\<close> cuts its argument into consecutive non-empty pieces, all but the
  last of length exactly 2000, the last of length at most 2000.
\<close>

theorem C1_length_enforcer:
  "(\<forall>p \<in> set (map content (sendChunks gw 0 chunks [])). length p \<le> 2000)
   \<and> concat (map content (sendChunks gw 0 chunks [])) = concat chunks
   \<and> map content (sendChunks gw 0 chunks [])
       = concat (map (\<lambda>chunk. if length chunk \<le> 2000 then [chunk]
                               else splitLongChunk chunk) chunks)
   \<and> (\<forall>chunk. concat (splitLongChunk chunk) = chunk
         \<and> (\<forall>p \<in> set (butlast (splitLongChunk chunk)). length p = 2000)
         \<and> (\<forall>p \<in> set (splitLongChunk chunk). 0 < length p \<and> length p \<le> 2000))"
proof -
  let ?f = "\<lambda>chunk. if length chunk \<le> 2000 then [chunk] else splitLongChunk chunk"
  have split: "concat (splitLongChunk chunk) = chunk
      \<and> (\<forall>p \<in> set (butlast (splitLongChunk chunk)). length p = 2000)
      \<and> (\<forall>p \<in> set (splitLongChunk chunk). 0 < length p \<and> length p \<le> 2000)" for chunk
    using splitFrom_concat [of chunk 0 "[]"] splitFrom_full [of "[]" chunk 0]
      splitFrom_pieces [of "[]" chunk 0]
    by (simp add: splitLongChunk_def MaxDiscordMessageLength_def)
  have out: "map content (sendChunks gw 0 chunks []) = concat (map ?f chunks)"
  proof -
    have "(\<lambda>chunk. if length chunk > MaxDiscordMessageLength
                    then splitLongChunk chunk else [chunk]) = ?f"
      by (auto simp: MaxDiscordMessageLength_def)
    then show ?thesis
      using content_sendChunks [of gw 0 chunks "[]"] by simp
  qed
  have len: "\<forall>p \<in> set (concat (map ?f chunks)). length p \<le> 2000"
    using split by auto
  have cat: "concat (concat (map ?f chunks)) = concat chunks"
    using split by (induction chunks) auto
  show ?thesis
    unfolding out using len cat split by blast
qed

lemma splitLongChunk_2001:
  "splitLongChunk (replicate 2001 CHR ''a'') = [replicate 2000 CHR ''a'', ''a'']"
proof -
  let ?c = "replicate 2001 CHR ''a''"
  have "splitFrom ?c 0 [] = splitFrom ?c 2000 [replicate 2000 CHR ''a'']"
    using splitFrom_step [of 0 ?c "[]"] by (simp add: MaxDiscordMessageLength_def)
  also have "\<dots> = splitFrom ?c 4000 [replicate 2000 CHR ''a'', ''a'']"
    using splitFrom_step [of 2000 ?c "[replicate 2000 CHR ''a'']"]
    by (simp add: MaxDiscordMessageLength_def)
  also have "\<dots> = [replicate 2000 CHR ''a'', ''a'']"
    by (rule splitFrom_stop) simp
  finally show ?thesis
    by (simp add: splitLongChunk_def)
qed

theorem C1_length_enforcer_witness:
  "map content (sendChunks (\<lambda>_ _. False) 0 [''ab'', replicate 2001 CHR ''a''] [])
     = [''ab'', replicate 2000 CHR ''a'', ''a'']
   \<and> length ''ab'' \<le> 2000 \<and> length (replicate 2000 CHR ''a'') \<le> 2000 \<and> length ''a'' \<le> 2000
   \<and> concat [''ab'', replicate 2000 CHR ''a'', ''a''] = concat [''ab'', replicate 2001 CHR ''a'']
   \<and> butlast (splitLongChunk (replicate 2001 CHR ''a'')) = [replicate 2000 CHR ''a'']"
proof -
  have out: "map content (sendChunks (\<lambda>_ _. False) 0 [''ab'', replicate 2001 CHR ''a''] [])
      = [''ab'', replicate 2000 CHR ''a'', ''a'']"
    using C1_length_enforcer [of "\<lambda>_ _. False" "[''ab'', replicate 2001 CHR ''a'']"]
    by (simp add: splitLongChunk_2001)
  show ?thesis
    using C1_length_enforcer [of "\<lambda>_ _. False" "[''ab'', replicate 2001 CHR ''a'']"]
    unfolding out by (simp add: splitLongChunk_2001)
qed

section \<open>Pacing\<close>

lemma wrap64_id: "- (2 ^ 63) \<le> x \<Longrightarrow> x < 2 ^ 63 \<Longrightarrow> wrap64 x = x"
  by (simp add: wrap64_def)

lemma quo_nonneg: "0 \<le> a \<Longrightarrow> 0 < b \<Longrightarrow> quo a b = a div b"
  by (cases "a = 0") (simp_all add: quo_def)

lemma calculateTypingDelay_short:
  assumes "length chunk \<le> 2000"
  shows "calculateTypingDelay chunk = 5000000000 + int (length chunk) * 625000"
proof -
  let ?n = "int (length chunk)"
  have n: "0 \<le> ?n" "?n \<le> 2000"
    using assms by simp_all
  have w1: "wrap64 (?n * 50000000) = ?n * 50000000"
    using n by (intro wrap64_id) simp_all
  have q: "quo (?n * 50000000) 80 = ?n * 625000"
  proof -
    have "?n * 50000000 = (?n * 625000) * 80" by simp
    then have "(?n * 50000000) div 80 = ?n * 625000"
      by (simp only: nonzero_mult_div_cancel_right)
    then show ?thesis
      using n by (simp add: quo_nonneg)
  qed
  have w2: "wrap64 (5000000000 + ?n * 625000) = 5000000000 + ?n * 625000"
    using n by (intro wrap64_id) simp_all
  have "\<not> 5000000000 + ?n * 625000 > (8000000000::int)"
    using n by simp
  then show ?thesis
    by (simp add: calculateTypingDelay_def Let_def TypingSpeed_def Millisecond_def
        MinMessageDelay_def MaxMessageDelay_def w1 q w2)
qed

lemma specTypingDelay_short:
  "n \<le> 2000 \<Longrightarrow> specTypingDelay n = 5000000000 + int n * 625000"
proof -
  assume "n \<le> 2000"
  have "int n * 50000000 = (int n * 625000) * 80" by simp
  then have "(int n * 50000000) div 80 = int n * 625000"
    by (simp only: nonzero_mult_div_cancel_right)
  then show ?thesis
    using \<open>n \<le> 2000\<close>
    by (simp add: specTypingDelay_def clamp_def TypingSpeed_def Millisecond_def
        MinMessageDelay_def MaxMessageDelay_def)
qed


lemma sendSubChunks_paced:
  "i > 0 \<or> j > 0 \<Longrightarrow>
   \<exists>new. sendSubChunks gw i j subChunks trace = trace @ new
     \<and> (\<forall>a \<in> set new. pause a = Some (calculateTypingDelay (content a)))"
proof (induction subChunks arbitrary: j trace)
  case Nil
  then show ?case by simp
next
  case (Cons s subChunks)
  let ?a = "\<lparr>pause = Some (calculateTypingDelay s), content = s, sendError = gw trace s\<rparr>"
  have first: "sendChunkWithDelay gw trace s (i > 0 \<or> j > 0) = trace @ [?a]"
    using Cons.prems by (simp add: sendChunkWithDelay_def)
  from Cons.IH [of "Suc j" "trace @ [?a]"] Cons.prems
  obtain new where new: "sendSubChunks gw i (Suc j) subChunks (trace @ [?a]) = (trace @ [?a]) @ new"
    "\<forall>a \<in> set new. pause a = Some (calculateTypingDelay (content a))"
    by auto
  have "sendSubChunks gw i j (s # subChunks) trace = trace @ (?a # new)"
    using first new(1) by simp
  moreover have "\<forall>a \<in> set (?a # new). pause a = Some (calculateTypingDelay (content a))"
    using new(2) by simp
  ultimately show ?case by blast
qed

lemma sendChunks_paced:
  "i > 0 \<Longrightarrow>
   \<exists>new. sendChunks gw i chunks trace = trace @ new
     \<and> (\<forall>a \<in> set new. pause a = Some (calculateTypingDelay (content a)))"
proof (induction chunks arbitrary: i trace)
  case Nil
  then show ?case by simp
next
  case (Cons chunk chunks)
  obtain mid where mid:
    "(if length chunk > MaxDiscordMessageLength
      then sendSubChunks gw i 0 (splitLongChunk chunk) trace
      else sendChunkWithDelay gw trace chunk (i > 0)) = trace @ mid"
    "\<forall>a \<in> set mid. pause a = Some (calculateTypingDelay (content a))"
  proof (cases "length chunk > MaxDiscordMessageLength")
    case True
    with sendSubChunks_paced [of i 0 gw "splitLongChunk chunk" trace] Cons.prems that
    show ?thesis by auto
  next
    case False
    with Cons.prems that [of "[\<lparr>pause = Some (calculateTypingDelay chunk), content = chunk,
        sendError = gw trace chunk\<rparr>]"]
    show ?thesis by (simp add: sendChunkWithDelay_def)
  qed
  from Cons.IH [of "Suc i" "trace @ mid"]
  obtain new where new: "sendChunks gw (Suc i) chunks (trace @ mid) = (trace @ mid) @ new"
    "\<forall>a \<in> set new. pause a = Some (calculateTypingDelay (content a))"
    by auto
  have "sendChunks gw i (chunk # chunks) trace = trace @ (mid @ new)"
    using mid(1) new(1) by (simp split: if_splits)
  moreover have "\<forall>a \<in> set (mid @ new). pause a = Some (calculateTypingDelay (content a))"
    using mid(2) new(2) by auto
  ultimately show ?case by blast
qed

lemma sendChunks_first:
  assumes "chunks \<noteq> []"
  shows "\<exists>a new. sendChunks gw 0 chunks [] = a # new \<and> pause a = None
           \<and> (\<forall>a \<in> set new. pause a = Some (calculateTypingDelay (content a)))"
proof -
  from assms obtain chunk rest where chunks: "chunks = chunk # rest"
    by (cases chunks) auto
  obtain a mid where mid:
    "(if length chunk > MaxDiscordMessageLength
      then sendSubChunks gw 0 0 (splitLongChunk chunk) []
      else sendChunkWithDelay gw [] chunk (0 < (0::nat))) = a # mid"
    "pause a = None"
    "\<forall>a \<in> set mid. pause a = Some (calculateTypingDelay (content a))"
  proof (cases "length chunk > MaxDiscordMessageLength")
    case True
    then have "concat (splitLongChunk chunk) \<noteq> []"
      using splitFrom_concat [of chunk 0 "[]"] by (auto simp: splitLongChunk_def)
    then obtain s subs where subs: "splitLongChunk chunk = s # subs"
      by (cases "splitLongChunk chunk") auto
    let ?a = "\<lparr>pause = None, content = s, sendError = gw [] s\<rparr>"
    from sendSubChunks_paced [of 0 "Suc 0" gw subs "[?a]"]
    obtain new where "sendSubChunks gw 0 (Suc 0) subs [?a] = [?a] @ new"
      "\<forall>a \<in> set new. pause a = Some (calculateTypingDelay (content a))"
      by auto
    with True subs that [of ?a new] show ?thesis
      by (simp add: sendChunkWithDelay_def)
  next
    case False
    with that [of "\<lparr>pause = None, content = chunk, sendError = gw [] chunk\<rparr>" "[]"]
    show ?thesis by (simp add: sendChunkWithDelay_def)
  qed
  from sendChunks_paced [of "Suc 0" gw rest "a # mid"]
  obtain new where new: "sendChunks gw (Suc 0) rest (a # mid) = (a # mid) @ new"
    "\<forall>a \<in> set new. pause a = Some (calculateTypingDelay (content a))"
    by auto
  have "sendChunks gw 0 chunks [] = a # (mid @ new)"
    using chunks mid(1) new(1) by (simp split: if_splits)
  moreover have "\<forall>a \<in> set (mid @ new). pause a = Some (calculateTypingDelay (content a))"
    using mid(3) new(2) by auto
  ultimately show ?thesis
    using mid(2) by blast
qed

lemma sendChunks_content_length:
  "a \<in> set (sendChunks gw 0 chunks []) \<Longrightarrow> length (content a) \<le> 2000"
proof -
  assume "a \<in> set (sendChunks gw 0 chunks [])"
  then have "content a \<in> set (map content (sendChunks gw 0 chunks []))"
    by simp
  then obtain chunk where "chunk \<in> set chunks"
    "content a \<in> set (if length chunk > MaxDiscordMessageLength
                        then splitLongChunk chunk else [chunk])"
    unfolding content_sendChunks by auto
  then show ?thesis
    using splitFrom_pieces [of "[]" chunk 0]
    by (auto simp: splitLongChunk_def MaxDiscordMessageLength_def split: if_splits)
qed

text \<open>
  Claim C3. For every chunk sequence with at least one element the delivery loop makes
  at least one attempt; the first attempt has no pause (no typing indicator, no
  sleep), and every later attempt is preceded by a pause of
  \<open>calculateTypingDelay\<close> of its text, which equals
  \<open>clamp(5000ms + len * 50ms / 80, 5000ms, 8000ms)\<close> and lies between 5000ms and
  8000ms. (Every text that reaches \<open>calculateTypingDelay\<close> has passed the length
  enforcer, so the \<open>int64\<close> arithmetic does not wrap.)
\<close>

theorem C3_pacing:
  "chunks \<noteq> [] \<Longrightarrow>
   sendChunks gw 0 chunks [] \<noteq> []
   \<and> pause (hd (sendChunks gw 0 chunks [])) = None
   \<and> (\<forall>a \<in> set (tl (sendChunks gw 0 chunks [])).
         pause a = Some (calculateTypingDelay (content a))
         \<and> calculateTypingDelay (content a) = specTypingDelay (length (content a))
         \<and> 5000 * Millisecond \<le> calculateTypingDelay (content a)
         \<and> calculateTypingDelay (content a) \<le> 8000 * Millisecond)"
proof -
  assume "chunks \<noteq> []"
  from sendChunks_first [OF this, of gw]
  obtain a new where tr: "sendChunks gw 0 chunks [] = a # new" "pause a = None"
    "\<forall>a \<in> set new. pause a = Some (calculateTypingDelay (content a))"
    by blast
  have bounds: "calculateTypingDelay (content b) = specTypingDelay (length (content b))
      \<and> 5000 * Millisecond \<le> calculateTypingDelay (content b)
      \<and> calculateTypingDelay (content b) \<le> 8000 * Millisecond" if "b \<in> set new" for b
  proof -
    from that have "b \<in> set (sendChunks gw 0 chunks [])"
      using tr(1) by simp
    then have len: "length (content b) \<le> 2000"
      by (rule sendChunks_content_length)
    then have "int (length (content b)) * 625000 \<le> 2000 * 625000"
      by simp
    then show ?thesis
      using len
      by (simp add: calculateTypingDelay_short specTypingDelay_short Millisecond_def)
  qed
  have "\<forall>b \<in> set new.
          pause b = Some (calculateTypingDelay (content b))
          \<and> calculateTypingDelay (content b) = specTypingDelay (length (content b))
          \<and> 5000 * Millisecond \<le> calculateTypingDelay (content b)
          \<and> calculateTypingDelay (content b) \<le> 8000 * Millisecond"
    using tr(3) bounds by blast
  then show ?thesis
    unfolding tr(1) using tr(2) by (simp only: list.sel list.distinct not_False_eq_True simp_thms)
qed

theorem C3_pacing_witness:
  "[''ab'', ''c''] \<noteq> []
   \<and> sendChunks (\<lambda>_ _. False) 0 [''ab'', ''c''] []
       = [\<lparr>pause = None, content = ''ab'', sendError = False\<rparr>,
          \<lparr>pause = Some 5000625000, content = ''c'', sendError = False\<rparr>]
   \<and> calculateTypingDelay ''c'' = specTypingDelay 1
   \<and> 5000 * Millisecond \<le> calculateTypingDelay ''c''
   \<and> calculateTypingDelay ''c'' \<le> 8000 * Millisecond"
proof -
  have tr: "sendChunks (\<lambda>_ _. False) 0 [''ab'', ''c''] []
      = [\<lparr>pause = None, content = ''ab'', sendError = False\<rparr>,
         \<lparr>pause = Some (calculateTypingDelay ''c''), content = ''c'', sendError = False\<rparr>]"
    by (simp add: sendChunkWithDelay_def MaxDiscordMessageLength_def)
  have d: "calculateTypingDelay ''c'' = 5000625000"
    by (simp add: calculateTypingDelay_def wrap64_def quo_def TypingSpeed_def
        MinMessageDelay_def MaxMessageDelay_def Millisecond_def)
  show ?thesis
    using C3_pacing [of "[''ab'', ''c'']" "\<lambda>_ _. False"] 
    unfolding tr by (simp add: d)
qed

section \<open>The fallback splitter without paragraph breaks\<close>

lemma Index_None_iff: "Index s sep = None \<longleftrightarrow> \<not> sublist sep s"
  by (induction s) (auto simp: sublist_Cons_right)

lemma Split_no_sep:
  assumes "\<not> sublist sep s"
  shows "Split s sep = [s]"
proof -
  have "Index s sep = None"
    using assms by (simp add: Index_None_iff)
  then show ?thesis
    by (subst Split.simps) simp
qed

lemma paragraphLoop_single:
  "length (lastChunk (paragraphLoop [s] [] [])) \<le> 1"
  by (simp add: lastChunk_def Let_def)

lemma fallback_no_separator:
  "\<not> sublist paraSep s \<Longrightarrow> fallbackMessageBreaks s = [s] \<and> fallbackChunking s = [s]"
  using paragraphLoop_single [of s]
  by (simp add: fallbackMessageBreaks_def fallbackChunking_def Split_no_sep Let_def)

text \<open>
  Claim C9. For every input that contains no double newline, \<open>fallbackMessageBreaks\<close>
  and \<open>fallbackChunking\<close> return the one-element sequence whose element is the input
  itself, untrimmed.
\<close>

theorem C9_no_separator:
  "\<not> sublist paraSep s \<Longrightarrow> fallbackMessageBreaks s = [s] \<and> fallbackChunking s = [s]"
  by (rule fallback_no_separator)

theorem C9_no_separator_witness:
  "\<not> sublist paraSep '' hello world''
   \<and> fallbackMessageBreaks '' hello world'' = ['' hello world'']
   \<and> fallbackChunking '' hello world'' = ['' hello world'']"
proof -
  have h: "\<not> sublist paraSep '' hello world''"
    by code_simp
  show ?thesis
    using h C9_no_separator [OF h] by simp
qed

section \<open>Segmentation\<close>

text \<open>
  Claim C4. For every reply of length at most 500, \<open>SuggestMessageBreaks\<close> returns
  exactly the one chunk that is the reply, with a nil error, and calls the provider
  not at all (the list of provider calls is empty).
\<close>

theorem C4_short_reply:
  "length R \<le> 500 \<Longrightarrow> SuggestMessageBreaks c R = (Returns ([R], None), [])"
  by (simp add: SuggestMessageBreaks_def)

theorem C4_short_reply_witness:
  "length ''Hello, world!'' \<le> 500
   \<and> SuggestMessageBreaks \<lparr>xaiAPIKey = ''key'', httpDo = (\<lambda>_. NoReply)\<rparr> ''Hello, world!''
       = (Returns ([''Hello, world!''], None), [])"
proof -
  have h: "length ''Hello, world!'' \<le> 500" by simp
  show ?thesis
    using h C4_short_reply [OF h, of "\<lparr>xaiAPIKey = ''key'', httpDo = (\<lambda>_. NoReply)\<rparr>"]
    by simp
qed

lemma validateLoop_filter:
  "validateLoop parts chunks
     = chunks @ filter (\<lambda>p. p \<noteq> [] \<and> length p \<le> 2000) (map TrimSpace parts)"
  by (induction parts arbitrary: chunks) (simp_all add: Let_def)

lemma Split_AB:
  "Split ''A<<<BREAK>>>B<<<BREAK>>>'' breakDelim = [''A'', ''B'', []]"
  by code_simp

lemma TrimSpace_AB: "TrimSpace ''A'' = ''A''" "TrimSpace ''B'' = ''B''" "TrimSpace [] = []"
  by code_simp+

text \<open>
  Claim C5. For every provider response, \<open>parseMessageBreaks\<close> computes what the
  specification describes: the pieces between occurrences of \<open><<<BREAK>>>\<close>, each
  trimmed, without the empty ones and those longer than 2000, and the fallback
  splitter's result on the original message when at most one piece is left. For the
  response \<open>A<<<BREAK>>>B<<<BREAK>>>\<close> the trimmed pieces are \<open>A\<close>, \<open>B\<close> and the
  empty string, and the result is exactly \<open>A\<close>, \<open>B\<close>.
\<close>

theorem C5_parse:
  "parseMessageBreaks response originalMessage
     = parseMessageBreaks_spec response originalMessage
   \<and> map TrimSpace (Split ''A<<<BREAK>>>B<<<BREAK>>>'' breakDelim) = [''A'', ''B'', []]
   \<and> parseMessageBreaks ''A<<<BREAK>>>B<<<BREAK>>>'' originalMessage = [''A'', ''B'']"
  by (simp add: parseMessageBreaks_def parseMessageBreaks_spec_def validateLoop_filter
      Split_AB TrimSpace_AB Let_def)

lemma SuggestMessageBreaks_error_fallback:
  "length message > 500 \<Longrightarrow>
   askGrok c (''Break this message into natural conversational chunks:'' @ paraSep @ message)
     = Returns (Inl e) \<Longrightarrow>
   fst (SuggestMessageBreaks c message) = Returns (fallbackMessageBreaks message, None)"
  by (simp add: SuggestMessageBreaks_def Let_def)

lemma SuggestMessageBreaks_no_error:
  "fst (SuggestMessageBreaks c message) = Returns (chunks, err) \<Longrightarrow> err = None"
  by (auto simp: SuggestMessageBreaks_def Let_def split: if_splits outcome.splits sum.splits)

text \<open>
  Claim C6 says that \<open>SuggestMessageBreaks\<close> returns a chunk list and a nil error for
  every provider outcome, malformed payloads included. The two lemmas above show it
  for every outcome on which \<open>askGrok\<close> returns. But \<open>askGrok\<close> reads
  \<open>choices[0].(map[string]interface{})["message"].(map[string]interface{})\<close> with
  unchecked type assertions: on a 200 response whose body is \<open>{"choices":[{}]}\<close> the
  assertion panics, \<open>SuggestMessageBreaks\<close> does not recover, and the panic reaches the
  caller of \<open>sendLongResponse\<close>. The theorem evaluates the code at that input, for a
  message of 501 bytes.
\<close>

theorem C6_malformed_payload_panics:
  "fst (SuggestMessageBreaks
          \<lparr>xaiAPIKey = ''key'',
           httpDo = (\<lambda>_. Reply 200 (Some [(''choices'', JArray [JObject []])]))\<rparr>
          (replicate 501 CHR ''a'')) = Panics
   \<and> sendLongResponse
          \<lparr>xaiAPIKey = ''key'',
           httpDo = (\<lambda>_. Reply 200 (Some [(''choices'', JArray [JObject []])]))\<rparr>
          (\<lambda>_ _. False) (replicate 501 CHR ''a'') = Panics"
  by (simp add: SuggestMessageBreaks_def sendLongResponse_def askGrok_def Let_def)

section \<open>Delivery continues after a failed send\<close>

text \<open>
  Claim C7. Whatever the gateway answers to each send, the delivery loop attempts
  every piece of every chunk, in order: the texts attempted are the same for every
  gateway, in particular for the one that fails every send and the one that fails
  none. And \<open>sendLongResponse\<close> hands no error to its caller: whenever segmentation
  returns, \<open>sendLongResponse\<close> returns, with the trace of the loop and nothing else.
\<close>

theorem C7_delivery_continues:
  "map content (sendChunks gw 0 chunks [])
     = concat (map (\<lambda>chunk. if length chunk \<le> 2000 then [chunk]
                             else splitLongChunk chunk) chunks)
   \<and> map content (sendChunks (\<lambda>_ _. True) 0 chunks [])
       = map content (sendChunks (\<lambda>_ _. False) 0 chunks [])
   \<and> (\<forall>segments err.
         fst (SuggestMessageBreaks c response) = Returns (segments, err) \<longrightarrow>
         sendLongResponse c gw response = Returns (sendChunks gw 0 segments []))"
proof -
  have eq: "(\<lambda>chunk. if length chunk > MaxDiscordMessageLength
                    then splitLongChunk chunk else [chunk])
          = (\<lambda>chunk. if length chunk \<le> 2000 then [chunk] else splitLongChunk chunk)"
    by (auto simp: MaxDiscordMessageLength_def)
  have out: "map content (sendChunks g 0 chunks [])
     = concat (map (\<lambda>chunk. if length chunk \<le> 2000 then [chunk]
                             else splitLongChunk chunk) chunks)" for g
    using content_sendChunks [of g 0 chunks "[]"] unfolding eq by simp
  have "sendLongResponse c gw response = Returns (sendChunks gw 0 segments [])"
    if "fst (SuggestMessageBreaks c response) = Returns (segments, err)" for segments err
    using that SuggestMessageBreaks_no_error [OF that]
    by (simp add: sendLongResponse_def)
  then show ?thesis
    using out by simp
qed

theorem C7_delivery_continues_witness:
  "fst (SuggestMessageBreaks \<lparr>xaiAPIKey = ''key'', httpDo = (\<lambda>_. NoReply)\<rparr> ''hi'')
     = Returns ([''hi''], None)
   \<and> sendLongResponse \<lparr>xaiAPIKey = ''key'', httpDo = (\<lambda>_. NoReply)\<rparr> (\<lambda>_ _. True) ''hi''
       = Returns [\<lparr>pause = None, content = ''hi'', sendError = True\<rparr>]
   \<and> map content (sendChunks (\<lambda>_ _. True) 0 [''hi'', ''there''] []) = [''hi'', ''there'']"
proof -
  have h: "fst (SuggestMessageBreaks \<lparr>xaiAPIKey = ''key'', httpDo = (\<lambda>_. NoReply)\<rparr> ''hi'')
      = Returns ([''hi''], None)"
    by (simp add: SuggestMessageBreaks_def)
  show ?thesis
    using h C7_delivery_continues [of "\<lambda>_ _. True" "[''hi'', ''there'']"
        "\<lparr>xaiAPIKey = ''key'', httpDo = (\<lambda>_. NoReply)\<rparr>" "''hi''"]
    by (simp add: sendChunkWithDelay_def MaxDiscordMessageLength_def)
qed

section \<open>The empty reply\<close>

text \<open>
  Claim C8 says that the empty reply gives zero chunks and no message. On the code
  it gives one chunk, the empty string: \<open>SuggestMessageBreaks\<close> returns its argument
  as the only chunk when it is at most 500 bytes long, the fallback splitter returns
  \<open>[message]\<close> when its loop collected no chunk, and the delivery loop then calls
  \<open>ChannelMessageSend\<close> once, with the empty text.
\<close>

theorem C8_empty_reply_counterexample:
  "fst (SuggestMessageBreaks \<lparr>xaiAPIKey = ''key'', httpDo = (\<lambda>_. NoReply)\<rparr> [])
     = Returns ([[]], None)
   \<and> fst (SuggestMessageBreaks \<lparr>xaiAPIKey = ''key'', httpDo = (\<lambda>_. NoReply)\<rparr> [])
     \<noteq> Returns ([], None)
   \<and> fallbackMessageBreaks [] = [[]]
   \<and> sendLongResponse \<lparr>xaiAPIKey = ''key'', httpDo = (\<lambda>_. NoReply)\<rparr> (\<lambda>_ _. False) []
       = Returns [\<lparr>pause = None, content = [], sendError = False\<rparr>]"
proof -
  have "Split [] paraSep = [[]]" by code_simp
  moreover have "TrimSpace [] = []" by code_simp
  ultimately show ?thesis
  by (simp add: SuggestMessageBreaks_def fallbackMessageBreaks_def sendLongResponse_def
      sendChunkWithDelay_def lastChunk_def MaxDiscordMessageLength_def Let_def)
qed

text \<open>
  Claim C8 as amended. For the empty reply, \<open>SuggestMessageBreaks\<close> returns exactly one
  chunk, the empty string, with a nil error and without a provider call; both
  fallback splitters return the same one chunk; and \<open>sendLongResponse\<close> makes exactly
  one send attempt, with the empty text and no pause.
\<close>

theorem C8_empty_reply:
  "SuggestMessageBreaks c [] = (Returns ([[]], None), [])
   \<and> fallbackMessageBreaks [] = [[]]
   \<and> fallbackChunking [] = [[]]
   \<and> sendLongResponse c gw [] = Returns [\<lparr>pause = None, content = [], sendError = gw [] []\<rparr>]"
proof -
  have "\<not> sublist paraSep []" by (simp add: paraSep_def)
  then have "fallbackMessageBreaks [] = [[]]" "fallbackChunking [] = [[]]"
    using fallback_no_separator by blast+
  then show ?thesis
    by (simp add: SuggestMessageBreaks_def sendLongResponse_def
      sendChunkWithDelay_def MaxDiscordMessageLength_def)
qed

section \<open>White space at the ends of a string\<close>

lemma find_None_D: "find P xs = None \<Longrightarrow> x \<in> set xs \<Longrightarrow> \<not> P x"
  by (induction xs) (auto split: if_splits)

lemma find_None_I: "(\<And>x. x \<in> set xs \<Longrightarrow> \<not> P x) \<Longrightarrow> find P xs = None"
  by (induction xs) auto

lemma leadingSpace_None_iff:
  "leadingSpace s = None \<longleftrightarrow> (\<forall>e \<in> set spaceRunes. \<not> prefix e s)"
  unfolding leadingSpace_def by (auto dest: find_None_D intro: find_None_I)

lemma trailingSpace_None_iff:
  "trailingSpace s = None \<longleftrightarrow> (\<forall>e \<in> set spaceRunes. \<not> suffix e s)"
  unfolding trailingSpace_def by (auto dest: find_None_D intro: find_None_I)

lemma TrimLeft_id: "leadingSpace s = None \<Longrightarrow> TrimLeft s = s"
  by (subst TrimLeft.simps) simp

lemma TrimRight_id: "trailingSpace s = None \<Longrightarrow> TrimRight s = s"
  by (subst TrimRight.simps) simp

lemma leadingSpace_TrimLeft: "leadingSpace (TrimLeft s) = None"
proof (induction s rule: TrimLeft.induct)
  case (1 s)
  show ?case
  proof (cases "leadingSpace s")
    case None
    then show ?thesis by (simp add: TrimLeft_id)
  next
    case (Some e)
    then have "TrimLeft s = TrimLeft (drop (length e) s)"
      by (subst TrimLeft.simps) simp
    with "1.IH" [OF Some] show ?thesis by simp
  qed
qed

lemma trailingSpace_TrimRight: "trailingSpace (TrimRight s) = None"
proof (induction s rule: TrimRight.induct)
  case (1 s)
  show ?case
  proof (cases "trailingSpace s")
    case None
    then show ?thesis by (simp add: TrimRight_id)
  next
    case (Some e)
    then have "TrimRight s = TrimRight (take (length s - length e) s)"
      by (subst TrimRight.simps) simp
    with "1.IH" [OF Some] show ?thesis by simp
  qed
qed

lemma suffix_TrimLeft: "suffix (TrimLeft s) s"
proof (induction s rule: TrimLeft.induct)
  case (1 s)
  show ?case
  proof (cases "leadingSpace s")
    case None
    then show ?thesis by (simp add: TrimLeft_id)
  next
    case (Some e)
    then have "TrimLeft s = TrimLeft (drop (length e) s)"
      by (subst TrimLeft.simps) simp
    with "1.IH" [OF Some] show ?thesis
      using suffix_drop suffix_order.trans by metis
  qed
qed

lemma prefix_TrimRight: "prefix (TrimRight s) s"
proof (induction s rule: TrimRight.induct)
  case (1 s)
  show ?case
  proof (cases "trailingSpace s")
    case None
    then show ?thesis by (simp add: TrimRight_id)
  next
    case (Some e)
    then have "TrimRight s = TrimRight (take (length s - length e) s)"
      by (subst TrimRight.simps) simp
    with "1.IH" [OF Some] show ?thesis
      using take_is_prefix prefix_order.trans by metis
  qed
qed

lemma TrimSpace_trimmed:
  "leadingSpace (TrimSpace s) = None \<and> trailingSpace (TrimSpace s) = None"
proof -
  have "\<not> prefix e (TrimRight (TrimLeft s))" if "e \<in> set spaceRunes" for e
  proof
    assume "prefix e (TrimRight (TrimLeft s))"
    then have "prefix e (TrimLeft s)"
      using prefix_TrimRight prefix_order.trans by blast
    with that leadingSpace_TrimLeft [of s] show False
      by (simp add: leadingSpace_None_iff)
  qed
  then show ?thesis
    by (simp add: TrimSpace_def leadingSpace_None_iff trailingSpace_TrimRight)
qed

lemma TrimSpace_id:
  "leadingSpace s = None \<Longrightarrow> trailingSpace s = None \<Longrightarrow> TrimSpace s = s"
  by (simp add: TrimSpace_def TrimLeft_id TrimRight_id)

lemma sublist_TrimSpace: "sublist (TrimSpace s) s"
  unfolding TrimSpace_def
  using prefix_TrimRight [of "TrimLeft s"] suffix_TrimLeft [of s]
  by (meson prefix_imp_sublist suffix_imp_sublist sublist_order.order.trans)

lemma length_TrimSpace: "length (TrimSpace s) \<le> length s"
  using sublist_TrimSpace [of s] by (simp add: sublist_length_le)

lemma newline_not_inside_rune:
  "e \<in> set spaceRunes \<Longrightarrow> CHR 0x0A \<notin> set (tl e) \<and> CHR 0x0A \<notin> set (butlast e)"
  by (auto simp: spaceRunes_def)

lemma leadingSpace_join:
  assumes "leadingSpace a = None" "a \<noteq> []"
  shows "leadingSpace (a @ paraSep @ b) = None"
proof -
  have "\<not> prefix e (a @ paraSep @ b)" if e: "e \<in> set spaceRunes" for e
  proof
    assume "prefix e (a @ paraSep @ b)"
    moreover have "\<not> prefix e a"
      using assms(1) e by (simp add: leadingSpace_None_iff)
    ultimately obtain us where us: "e = a @ us" "prefix us (paraSep @ b)"
      by (auto simp: prefix_append)
    with \<open>\<not> prefix e a\<close> have "us \<noteq> []" by auto
    with us(2) obtain us' where "us = CHR 0x0A # us'"
      by (cases us) (auto simp: paraSep_def)
    with us(1) assms(2) have "CHR 0x0A \<in> set (tl e)"
      by (cases a) auto
    with newline_not_inside_rune [OF e] show False by simp
  qed
  then show ?thesis
    by (simp add: leadingSpace_None_iff)
qed

lemma trailingSpace_join:
  assumes "trailingSpace b = None" "b \<noteq> []"
  shows "trailingSpace (a @ paraSep @ b) = None"
proof -
  have "\<not> suffix e (a @ paraSep @ b)" if e: "e \<in> set spaceRunes" for e
  proof
    assume "suffix e (a @ paraSep @ b)"
    then have "suffix e ((a @ paraSep) @ b)" by simp
    moreover have "\<not> suffix e b"
      using assms(1) e by (simp add: trailingSpace_None_iff)
    ultimately obtain us where us: "e = us @ b" "suffix us (a @ paraSep)"
      unfolding suffix_append by auto
    with \<open>\<not> suffix e b\<close> have "us \<noteq> []" by auto
    moreover have "a @ paraSep = (a @ [CHR 0x0A]) @ [CHR 0x0A]"
      by (simp add: paraSep_def)
    ultimately have "\<exists>zs. us = zs @ [CHR 0x0A] \<and> suffix zs (a @ [CHR 0x0A])"
      using us(2) by (simp only: suffix_snoc) simp
    then obtain us' where "us = us' @ [CHR 0x0A]"
      by blast
    with us(1) assms(2) have "CHR 0x0A \<in> set (butlast e)"
      by (cases b rule: rev_cases) (auto simp: butlast_append)
    with newline_not_inside_rune [OF e] show False by simp
  qed
  then show ?thesis
    by (simp add: trailingSpace_None_iff)
qed


section \<open>The fallback splitter joins the trimmed paragraphs\<close>

lemma Join_Cons: "Join (x # xs) sep = (if xs = [] then x else x @ sep @ Join xs sep)"
  by (cases xs) simp_all

lemma Join_merge:
  "Join (xs @ [a @ sep @ b] @ ys) sep = Join (xs @ [a, b] @ ys) sep"
  by (induction xs) (simp_all add: Join_Cons)

lemma trimmed_TrimSpace: "trimmed (TrimSpace s)"
  by (simp add: trimmed_def TrimSpace_trimmed)

lemma TrimSpace_trimmed_id: "trimmed s \<Longrightarrow> TrimSpace s = s"
  by (simp add: trimmed_def TrimSpace_id)

lemma trimmed_join: "trimmed a \<Longrightarrow> a \<noteq> [] \<Longrightarrow> trimmed b \<Longrightarrow> b \<noteq> [] \<Longrightarrow> trimmed (a @ paraSep @ b)"
  by (simp add: trimmed_def leadingSpace_join trailingSpace_join)

lemma paragraphLoop_join:
  "currentChunk = [] \<or> trimmed currentChunk \<Longrightarrow>
   Join (lastChunk (paragraphLoop paragraphs chunks currentChunk)) paraSep
     = Join (chunks @ (if currentChunk = [] then [] else [currentChunk])
               @ filter (\<lambda>p. p \<noteq> []) (map TrimSpace paragraphs)) paraSep"
proof (induction paragraphs arbitrary: chunks currentChunk)
  case Nil
  then show ?case
    by (auto simp: lastChunk_def TrimSpace_trimmed_id)
next
  case (Cons p paragraphs)
  let ?para = "TrimSpace p"
  let ?rest = "filter (\<lambda>p. p \<noteq> []) (map TrimSpace paragraphs)"
  show ?case
  proof (cases "?para = []")
    case True
    with Cons.IH [OF Cons.prems, of chunks] show ?thesis by simp
  next
    case para: False
    have tp: "trimmed ?para" by (rule trimmed_TrimSpace)
    show ?thesis
    proof (cases "currentChunk = []")
      case True
      have "Join (lastChunk (paragraphLoop paragraphs chunks ?para)) paraSep
              = Join (chunks @ [?para] @ ?rest) paraSep"
        using Cons.IH [of ?para chunks] tp para by simp
      with True para show ?thesis by (simp add: Let_def)
    next
      case cur: False
      with Cons.prems have tc: "trimmed currentChunk" by simp
      show ?thesis
      proof (cases "length currentChunk + length ?para + 2 > 800")
        case True
        have "Join (lastChunk (paragraphLoop paragraphs (chunks @ [currentChunk]) ?para)) paraSep
                = Join ((chunks @ [currentChunk]) @ [?para] @ ?rest) paraSep"
          using Cons.IH [of ?para "chunks @ [currentChunk]"] tp para by simp
        with True cur para tc show ?thesis
          by (simp add: Let_def TrimSpace_trimmed_id)
      next
        case False
        let ?joined = "currentChunk @ paraSep @ ?para"
        have tj: "trimmed ?joined"
          using tc cur tp para by (rule trimmed_join)
        have ne: "?joined \<noteq> []"
          using cur by simp
        have "Join (lastChunk (paragraphLoop paragraphs chunks ?joined)) paraSep
                = Join (chunks @ (if ?joined = [] then [] else [?joined]) @ ?rest) paraSep"
          by (rule Cons.IH [OF disjI2 [OF tj]])
        also have "\<dots> = Join (chunks @ [?joined] @ ?rest) paraSep"
          by (simp only: ne if_False)
        also have "\<dots> = Join (chunks @ [currentChunk, ?para] @ ?rest) paraSep"
          by (rule Join_merge)
        finally show ?thesis
          using False cur para by (simp add: Let_def)
      qed
    qed
  qed
qed

lemma fallbackChunking_eq: "fallbackChunking m = fallbackMessageBreaks m"
  by (simp add: fallbackChunking_def fallbackMessageBreaks_def)

text \<open>
  Claim C2. For every reply, the fallback splitter (\<open>fallbackMessageBreaks\<close>, and
  \<open>fallbackChunking\<close>, which computes the same) returns at least one chunk; when it
  returns two or more, joining them with the double newline gives exactly the join,
  with the double newline, of the reply's paragraphs trimmed of white space and
  without the empty ones, so the chunks hold the paragraphs in their order; when it
  returns one chunk, that chunk is the reply unchanged.
\<close>

theorem C2_fallback_reproduces:
  "(2 \<le> length (fallbackMessageBreaks m) \<longrightarrow>
      Join (fallbackMessageBreaks m) paraSep
        = Join (filter (\<lambda>p. p \<noteq> []) (map TrimSpace (Split m paraSep))) paraSep)
   \<and> (length (fallbackMessageBreaks m) = 1 \<longrightarrow> fallbackMessageBreaks m = [m])
   \<and> 1 \<le> length (fallbackMessageBreaks m)
   \<and> fallbackChunking m = fallbackMessageBreaks m"
proof -
  let ?chunks = "lastChunk (paragraphLoop (Split m paraSep) [] [])"
  have join: "Join ?chunks paraSep
      = Join (filter (\<lambda>p. p \<noteq> []) (map TrimSpace (Split m paraSep))) paraSep"
    using paragraphLoop_join [of "[]" "Split m paraSep" "[]"] by simp
  have res: "fallbackMessageBreaks m = (if length ?chunks \<le> 1 then [m] else ?chunks)"
    by (simp add: fallbackMessageBreaks_def Let_def)
  show ?thesis
  proof (cases "length ?chunks \<le> 1")
    case True
    with res show ?thesis by (simp add: fallbackChunking_eq)
  next
    case False
    with res join show ?thesis by (simp add: fallbackChunking_eq)
  qed
qed


subsection \<open>Replies of two paragraphs\<close>

lemma Index_paraSep_at:
  "CHR 0x0A \<notin> set a \<Longrightarrow> Index (a @ paraSep @ rest) paraSep = Some (length a)"
  by (induction a) (auto simp: paraSep_def)

lemma Split_paraSep_Cons:
  assumes "CHR 0x0A \<notin> set a"
  shows "Split (a @ paraSep @ rest) paraSep = a # Split rest paraSep"
proof -
  have "paraSep \<noteq> []" "length paraSep = 2"
    by (simp_all add: paraSep_def)
  then show ?thesis
    using Index_paraSep_at [OF assms, of rest]
    by (subst Split.simps) simp
qed

lemma no_newline_no_sep: "CHR 0x0A \<notin> set b \<Longrightarrow> \<not> sublist paraSep b"
  using set_mono_sublist [of paraSep b] by (auto simp: paraSep_def)

lemma Split_paraSep_last: "CHR 0x0A \<notin> set b \<Longrightarrow> Split b paraSep = [b]"
  by (simp add: Split_no_sep no_newline_no_sep)

lemma trimmed_plain:
  assumes "s \<noteq> []"
    and "\<forall>e \<in> set spaceRunes. hd e \<noteq> hd s"
    and "\<forall>e \<in> set spaceRunes. last e \<noteq> last s"
  shows "trimmed s"
proof -
  have "\<not> prefix e s" if e: "e \<in> set spaceRunes" for e
  proof
    assume "prefix e s"
    then obtain r where "s = e @ r" by (auto simp: prefix_def)
    moreover have "e \<noteq> []" using e by (rule spaceRunes_nonempty)
    ultimately have "hd e = hd s" by simp
    with assms(2) e show False by blast
  qed
  moreover have "\<not> suffix e s" if e: "e \<in> set spaceRunes" for e
  proof
    assume "suffix e s"
    then obtain r where "s = r @ e" by (auto simp: suffix_def)
    moreover have "e \<noteq> []" using e by (rule spaceRunes_nonempty)
    ultimately have "last e = last s" by simp
    with assms(3) e show False by blast
  qed
  ultimately show ?thesis
    by (simp add: trimmed_def leadingSpace_None_iff trailingSpace_None_iff)
qed

lemma trimmed_letters:
  "0 < n \<Longrightarrow> c \<in> {CHR ''a'', CHR ''b''} \<Longrightarrow> trimmed (replicate n c)"
  by (rule trimmed_plain) (auto simp: spaceRunes_def hd_replicate last_replicate)

lemma fallback_two_paragraphs:
  assumes a: "trimmed a" "a \<noteq> []" "CHR 0x0A \<notin> set a"
    and b: "trimmed b" "b \<noteq> []" "CHR 0x0A \<notin> set b"
    and big: "length a + length b + 2 > 800"
  shows "fallbackMessageBreaks (a @ paraSep @ b) = [a, b]"
proof -
  have "Split (a @ paraSep @ b) paraSep = [a, b]"
    using a(3) b(3) by (simp add: Split_paraSep_Cons Split_paraSep_last)
  moreover have "paragraphLoop [a, b] [] [] = ([a], b)"
    using a b big by (simp add: TrimSpace_trimmed_id Let_def)
  ultimately show ?thesis
    using b by (simp add: fallbackMessageBreaks_def lastChunk_def TrimSpace_trimmed_id Let_def)
qed

theorem C2_fallback_reproduces_witness:
  "2 \<le> length (fallbackMessageBreaks (replicate 500 CHR ''a'' @ paraSep @ replicate 500 CHR ''b''))
   \<and> Join (fallbackMessageBreaks (replicate 500 CHR ''a'' @ paraSep @ replicate 500 CHR ''b''))
        paraSep
      = replicate 500 CHR ''a'' @ paraSep @ replicate 500 CHR ''b''
   \<and> length (fallbackMessageBreaks ''ab'') = 1
   \<and> fallbackMessageBreaks ''ab'' = [''ab'']"
proof -
  let ?a = "replicate 500 CHR ''a''" and ?b = "replicate 500 CHR ''b''"
  have two: "fallbackMessageBreaks (?a @ paraSep @ ?b) = [?a, ?b]"
    by (rule fallback_two_paragraphs) (simp_all add: trimmed_letters)
  have one: "fallbackMessageBreaks ''ab'' = [''ab'']"
    using fallback_no_separator [of "''ab''"] no_newline_no_sep [of "''ab''"] by simp
  show ?thesis
    using C2_fallback_reproduces [of "?a @ paraSep @ ?b"] C2_fallback_reproduces [of "''ab''"]
    unfolding two one by simp
qed


section \<open>The soft target of 800 bytes\<close>

lemma Index_first:
  "sep \<noteq> [] \<Longrightarrow> Index s sep = Some m \<Longrightarrow> \<not> sublist sep (take m s)"
proof (induction s arbitrary: m)
  case Nil
  then show ?case by simp
next
  case (Cons c cs)
  show ?case
  proof (cases "prefix sep (c # cs)")
    case True
    with Cons.prems show ?thesis by simp
  next
    case False
    with Cons.prems obtain k where k: "Index cs sep = Some k" "m = Suc k"
      by auto
    have "\<not> prefix sep (c # take k cs)"
    proof
      assume "prefix sep (c # take k cs)"
      moreover have "prefix (c # take k cs) (c # cs)"
        by (simp add: take_is_prefix)
      ultimately have "prefix sep (c # cs)"
        by (rule prefix_order.trans)
      with False show False ..
    qed
    with Cons.IH [OF Cons.prems(1) k(1)] k(2) show ?thesis
      by (simp add: sublist_Cons_right)
  qed
qed

lemma Split_pieces: "sep \<noteq> [] \<Longrightarrow> p \<in> set (Split s sep) \<Longrightarrow> \<not> sublist sep p"
proof (induction s sep rule: Split.induct)
  case (1 s sep)
  show ?case
  proof (cases "Index s sep")
    case None
    with "1.prems" have "p = s"
      by (subst (asm) Split.simps) simp
    with None show ?thesis
      by (simp add: Index_None_iff)
  next
    case (Some m)
    with "1.prems" have "p = take m s \<or> p \<in> set (Split (drop (m + length sep) s) sep)"
      by (subst (asm) Split.simps) simp
    then show ?thesis
    proof
      assume "p = take m s"
      with Index_first [OF "1.prems"(1) Some] show ?thesis by simp
    next
      assume "p \<in> set (Split (drop (m + length sep) s) sep)"
      with "1.IH" [OF "1.prems"(1) Some "1.prems"(1)] show ?thesis .
    qed
  qed
qed

lemma paragraph_no_sep:
  assumes "c \<in> set (map TrimSpace (Split m paraSep))"
  shows "\<not> sublist paraSep c"
proof -
  from assms obtain p where p: "p \<in> set (Split m paraSep)" "c = TrimSpace p"
    by auto
  have "paraSep \<noteq> []" by (simp add: paraSep_def)
  then have "\<not> sublist paraSep p"
    using p(1) by (rule Split_pieces)
  moreover have "sublist c p"
    unfolding p(2) by (rule sublist_TrimSpace)
  ultimately show ?thesis
    using sublist_order.order.trans by blast
qed

lemma paragraphLoop_soft_target:
  assumes "\<forall>c \<in> set chunks. length c \<le> 800 \<or> c \<in> TrimSpace ` S"
    and "currentChunk = [] \<or>
         (trimmed currentChunk \<and> (length currentChunk \<le> 800 \<or> currentChunk \<in> TrimSpace ` S))"
    and "set paragraphs \<subseteq> S"
  shows "\<forall>c \<in> set (lastChunk (paragraphLoop paragraphs chunks currentChunk)).
           length c \<le> 800 \<or> c \<in> TrimSpace ` S"
  using assms
proof (induction paragraphs arbitrary: chunks currentChunk)
  case Nil
  then show ?case
    by (auto simp: lastChunk_def TrimSpace_trimmed_id)
next
  case (Cons p paragraphs)
  let ?para = "TrimSpace p"
  have sub: "set paragraphs \<subseteq> S" and pS: "?para \<in> TrimSpace ` S"
    using Cons.prems(3) by auto
  have tp: "trimmed ?para" by (rule trimmed_TrimSpace)
  show ?case
  proof (cases "?para = []")
    case True
    with Cons.IH [OF Cons.prems(1,2) sub] show ?thesis by simp
  next
    case para: False
    show ?thesis
    proof (cases "currentChunk = []")
      case True
      have "\<forall>c \<in> set (lastChunk (paragraphLoop paragraphs chunks ?para)).
              length c \<le> 800 \<or> c \<in> TrimSpace ` S"
        using Cons.prems(1) tp pS sub by (intro Cons.IH) simp_all
      with True para show ?thesis by (simp add: Let_def)
    next
      case cur: False
      with Cons.prems(2) have tc: "trimmed currentChunk"
        and lc: "length currentChunk \<le> 800 \<or> currentChunk \<in> TrimSpace ` S"
        by simp_all
      show ?thesis
      proof (cases "length currentChunk + length ?para + 2 > 800")
        case True
        have "\<forall>c \<in> set (lastChunk (paragraphLoop paragraphs (chunks @ [currentChunk]) ?para)).
                length c \<le> 800 \<or> c \<in> TrimSpace ` S"
          using Cons.prems(1) lc tp pS sub by (intro Cons.IH) auto
        with True cur para tc show ?thesis
          by (simp add: Let_def TrimSpace_trimmed_id)
      next
        case False
        let ?joined = "currentChunk @ paraSep @ ?para"
        have "trimmed ?joined"
          using tc cur tp para by (rule trimmed_join)
        moreover have "length ?joined \<le> 800"
          using False by (simp add: paraSep_def)
        ultimately have "\<forall>c \<in> set (lastChunk (paragraphLoop paragraphs chunks ?joined)).
                length c \<le> 800 \<or> c \<in> TrimSpace ` S"
          using Cons.prems(1) sub by (intro Cons.IH) simp_all
        with False cur para show ?thesis by (simp add: Let_def)
      qed
    qed
  qed
qed

text \<open>
  Claim C10 as amended. Every chunk the loop of the fallback splitter collects
  (\<open>chunks\<close> after the last append, before the test \<open>len(chunks) <= 1\<close>) is at most
  800 bytes long or is a single trimmed paragraph, which holds no double newline. So
  when the splitter returns two or more chunks, they are the collected ones, and each
  of them that holds more than one paragraph (a double newline) is at most 800 bytes
  long. A result of one chunk is the original reply, which this does not bind.
\<close>

theorem C10_soft_target:
  "(\<forall>c \<in> set (lastChunk (paragraphLoop (Split m paraSep) [] [])).
      length c \<le> 800 \<or> (c \<in> set (map TrimSpace (Split m paraSep)) \<and> \<not> sublist paraSep c))
   \<and> (2 \<le> length (fallbackMessageBreaks m) \<longrightarrow>
        lastChunk (paragraphLoop (Split m paraSep) [] []) = fallbackMessageBreaks m
        \<and> (\<forall>c \<in> set (fallbackMessageBreaks m). sublist paraSep c \<longrightarrow> length c \<le> 800))
   \<and> fallbackChunking m = fallbackMessageBreaks m"
proof -
  let ?chunks = "lastChunk (paragraphLoop (Split m paraSep) [] [])"
  have "\<forall>c \<in> set ?chunks. length c \<le> 800 \<or> c \<in> TrimSpace ` set (Split m paraSep)"
    by (rule paragraphLoop_soft_target) simp_all
  then have loop: "\<forall>c \<in> set ?chunks.
      length c \<le> 800 \<or> (c \<in> set (map TrimSpace (Split m paraSep)) \<and> \<not> sublist paraSep c)"
    using paragraph_no_sep [of _ m] by auto
  have res: "fallbackMessageBreaks m = (if length ?chunks \<le> 1 then [m] else ?chunks)"
    by (simp add: fallbackMessageBreaks_def Let_def)
  have "?chunks = fallbackMessageBreaks m
      \<and> (\<forall>c \<in> set (fallbackMessageBreaks m). sublist paraSep c \<longrightarrow> length c \<le> 800)"
    if "2 \<le> length (fallbackMessageBreaks m)"
  proof -
    from that res have "fallbackMessageBreaks m = ?chunks"
      by (simp split: if_splits)
    with loop show ?thesis by auto
  qed
  with loop show ?thesis
    by (simp add: fallbackChunking_eq)
qed

lemma TrimLeft_spaces: "TrimLeft (replicate n CHR '' '') = []"
proof (induction n)
  case 0
  have "leadingSpace [] = None"
    by (simp add: leadingSpace_def spaceRunes_def)
  then show ?case by (simp add: TrimLeft_id)
next
  case (Suc n)
  have "leadingSpace (CHR '' '' # replicate n CHR '' '') = Some [CHR '' '']"
    by (simp add: leadingSpace_def spaceRunes_def)
  then have "TrimLeft (replicate (Suc n) CHR '' '') = TrimLeft (replicate n CHR '' '')"
    by (subst TrimLeft.simps) simp
  with Suc show ?case by simp
qed

lemma TrimSpace_spaces: "TrimSpace (replicate n CHR '' '') = []"
proof -
  have "trailingSpace [] = None"
    by (simp add: trailingSpace_def spaceRunes_def)
  then show ?thesis
    by (simp add: TrimSpace_def TrimLeft_spaces TrimRight_id)
qed

lemma trimmed_ab: "trimmed ''a''" "trimmed ''b''"
  using trimmed_letters [of 1 "CHR ''a''"] trimmed_letters [of 1 "CHR ''b''"] by simp_all

lemma paddedReply_split:
  "Split paddedReply paraSep = [''a'', replicate 900 CHR '' '', ''b'']"
proof -
  let ?sp = "replicate 900 CHR '' ''"
  have "Split (''a'' @ paraSep @ (?sp @ paraSep @ ''b'')) paraSep
          = ''a'' # Split (?sp @ paraSep @ ''b'') paraSep"
    by (rule Split_paraSep_Cons) simp
  also have "Split (?sp @ paraSep @ ''b'') paraSep = ?sp # Split ''b'' paraSep"
    by (rule Split_paraSep_Cons) simp
  also have "Split ''b'' paraSep = [''b'']"
    by (rule Split_paraSep_last) simp
  finally show ?thesis
    by (simp only: paddedReply_def)
qed

lemma paddedReply_loop:
  "lastChunk (paragraphLoop (Split paddedReply paraSep) [] []) = [''a'' @ paraSep @ ''b'']"
proof -
  have "paragraphLoop [''a'', replicate 900 CHR '' '', ''b''] [] [] = ([], ''a'' @ paraSep @ ''b'')"
    by (simp add: TrimSpace_spaces TrimSpace_trimmed_id trimmed_ab Let_def)
  moreover have "trimmed (''a'' @ paraSep @ ''b'')"
    by (rule trimmed_join) (simp_all add: trimmed_ab)
  ultimately show ?thesis
    by (simp add: paddedReply_split TrimSpace_trimmed_id lastChunk_def)
qed

text \<open>
  Claim C10 as stated, for every chunk the splitter produces, fails on a reply whose
  paragraphs join to at most 800 bytes while the reply itself is longer: the loop
  collects one chunk, so the splitter returns the reply itself. \<open>paddedReply\<close> is the
  paragraph \<open>a\<close>, a paragraph of 900 spaces and the paragraph \<open>b\<close>: it is returned as
  the only chunk, holds double newlines, is none of its own trimmed paragraphs, and is
  906 bytes long.
\<close>

theorem C10_soft_target_counterexample:
  "paddedReply \<in> set (fallbackMessageBreaks paddedReply)
   \<and> sublist paraSep paddedReply
   \<and> paddedReply \<notin> set (map TrimSpace (Split paddedReply paraSep))
   \<and> \<not> length paddedReply \<le> 800"
proof -
  have "fallbackMessageBreaks paddedReply = [paddedReply]"
    by (simp add: fallbackMessageBreaks_def paddedReply_loop Let_def)
  moreover have "sublist paraSep paddedReply"
    unfolding paddedReply_def by (rule sublist_appendI)
  moreover have "length paddedReply = 906"
    by (simp add: paddedReply_def paraSep_def)
  moreover have "map TrimSpace (Split paddedReply paraSep) = [''a'', [], ''b'']"
    by (simp add: paddedReply_split TrimSpace_spaces TrimSpace_trimmed_id trimmed_ab)
  moreover have "paddedReply \<noteq> ''a''" "paddedReply \<noteq> []" "paddedReply \<noteq> ''b''"
    by (simp_all add: paddedReply_def paraSep_def)
  ultimately show ?thesis by simp
qed

theorem C10_soft_target_witness:
  "fallbackMessageBreaks (replicate 801 CHR ''a'' @ paraSep @ replicate 5 CHR ''b'')
      = [replicate 801 CHR ''a'', replicate 5 CHR ''b'']
   \<and> \<not> length (replicate 801 CHR ''a'') \<le> 800
   \<and> replicate 801 CHR ''a''
        \<in> set (map TrimSpace
                 (Split (replicate 801 CHR ''a'' @ paraSep @ replicate 5 CHR ''b'') paraSep))
   \<and> \<not> sublist paraSep (replicate 801 CHR ''a'')
   \<and> length (replicate 5 CHR ''b'') \<le> 800"
proof -
  let ?a = "replicate 801 CHR ''a''" and ?b = "replicate 5 CHR ''b''"
  have two: "fallbackMessageBreaks (?a @ paraSep @ ?b) = [?a, ?b]"
    by (rule fallback_two_paragraphs) (simp_all add: trimmed_letters)
  have par: "map TrimSpace (Split (?a @ paraSep @ ?b) paraSep) = [?a, ?b]"
    by (simp add: Split_paraSep_Cons Split_paraSep_last TrimSpace_trimmed_id trimmed_letters)
  show ?thesis
    using C10_soft_target [of "?a @ paraSep @ ?b"]
    unfolding two par by simp
qed

end
